theory Spec2Isabelle
  imports Complex_Main "HOL-Library.Char_ord" "HOL-Library.List_Lexorder"
begin

section \<open>Constants of \<open>server.py\<close>\<close>

definition NOTE_MIN :: int where "NOTE_MIN = 31"
definition NOTE_MAX :: int where "NOTE_MAX = 46"

definition PLAYABLE_NOTES :: "int list" where
  "PLAYABLE_NOTES = [NOTE_MIN ..NOTE_MAX]"

text \<open>
  \<open>DEBOUNCE_S = 0.35\<close> and the values of \<open>time.time()\<close> are Python floats; they are
  taken here as exact reals, so the rounding of the float subtraction is not part of the model.
\<close>

definition DEBOUNCE_S :: real where "DEBOUNCE_S = 35 / 100"

definition TOP_N :: nat where "TOP_N = 5"

section \<open>Leaderboard persistence\<close>

text \<open>
  The exceptions the modelled code can raise. \<open>json.JSONDecodeError\<close> and \<open>OSError\<close>
  are caught inside \<open>load_leaderboard\<close> and never leave it.
\<close>

datatype py_error = AttributeError | TypeError | KeyError | IndexError

text \<open>
  Values stored under a key of a JSON object: \<open>null\<close>, booleans, integers and strings.
  Numbers with a fraction and nested containers as field values are outside the model.
\<close>

datatype jval = JNull | JBool bool | JInt int | JStr string

type_synonym jdict = "(string \<times> jval) list"

text \<open>An element of a parsed JSON list: an object, or any value that is not an object.\<close>

datatype jelem = JDict jdict | JNonDict

text \<open>
  What \<open>LEADERBOARD_FILE\<close> can hold, as far as \<open>load_leaderboard\<close> tells the cases apart:
  the file does not exist; \<open>read_text\<close> raises \<open>OSError\<close>; \<open>json.loads\<close> raises
  \<open>JSONDecodeError\<close> (an empty file is one such); the text parses to something that is not
  a list; the text parses to a list.
\<close>

datatype file_state = Missing | Unreadable | NotJson | NonList | JsonList "jelem list"

text \<open>Python's \<open>bool\<close> is a subclass of \<open>int\<close>: \<open>True\<close> compares as 1, \<open>False\<close> as 0.\<close>

fun as_int :: "jval \<Rightarrow> int option" where
  "as_int (JInt i) = Some i"
| "as_int (JBool b) = Some (if b then 1 else 0)"
| "as_int JNull = None"
| "as_int (JStr s) = None"

fun as_str :: "jval \<Rightarrow> string option" where
  "as_str (JStr s) = Some s"
| "as_str JNull = None"
| "as_str (JBool b) = None"
| "as_str (JInt i) = None"

definition int_key :: "jval \<Rightarrow> int" where
  "int_key v = (case as_int v of Some i \<Rightarrow> i | None \<Rightarrow> 0)"

definition str_key :: "jval \<Rightarrow> string" where
  "str_key v = (case as_str v of Some s \<Rightarrow> s | None \<Rightarrow> [])"

text \<open>\<open>d.get(k, dflt)\<close> and \<open>d[k]\<close> on a dict.\<close>

definition dict_get :: "jdict \<Rightarrow> string \<Rightarrow> jval \<Rightarrow> jval" where
  "dict_get d k dflt = (case map_of d k of None \<Rightarrow> dflt | Some v \<Rightarrow> v)"

definition dict_item :: "jdict \<Rightarrow> string \<Rightarrow> py_error + jval" where
  "dict_item d k = (case map_of d k of None \<Rightarrow> Inl KeyError | Some v \<Rightarrow> Inr v)"

text \<open>
  \<open>sorted(xs, key=..., reverse=True)\<close> on a list already decorated with its keys.
  Python sorts stably, and with \<open>reverse=True\<close> elements of equal key keep their original
  order (the list is reversed, sorted ascending and reversed again). Keys are compared with
  \<open><\<close>: integers (and booleans) compare with each other, strings with each other by code
  point, and every other pairing raises \<open>TypeError\<close>. A sort of two or more elements
  compares every element with some other one, so it raises unless all keys are integers or
  all are strings; a list of at most one element is returned without any comparison.
\<close>

definition py_sorted_reverse :: "(jval \<times> 'a) list \<Rightarrow> py_error + 'a list" where
  "py_sorted_reverse kxs =
     (if length kxs \<le> 1 then Inr (map snd kxs)
      else if list_all (\<lambda>kx. as_int (fst kx) \<noteq> None) kxs
        then Inr (map snd (rev (sort_key (\<lambda>kx. int_key (fst kx)) (rev kxs))))
      else if list_all (\<lambda>kx. as_str (fst kx) \<noteq> None) kxs
        then Inr (map snd (rev (sort_key (\<lambda>kx. str_key (fst kx)) (rev kxs))))
      else Inl TypeError)"

text \<open>
  The keys \<open>e.get("score", 0)\<close> of \<open>load_leaderboard\<close>, computed element by element
  before any comparison: an element that is not a dict has no \<open>get\<close>.
\<close>

fun get_keys :: "jelem list \<Rightarrow> py_error + (jval \<times> jdict) list" where
  "get_keys [] = Inr []"
| "get_keys (JNonDict # es) = Inl AttributeError"
| "get_keys (JDict d # es) =
     (case get_keys es of
        Inl err \<Rightarrow> Inl err
      | Inr ks \<Rightarrow> Inr ((dict_get d ''score'' (JInt 0), d) # ks))"

text \<open>\<open>load_leaderboard\<close>, lines 39 to 47 of \<open>server.py\<close>.\<close>

definition load_leaderboard :: "file_state \<Rightarrow> py_error + jdict list" where
  "load_leaderboard f =
     (case f of
        Missing \<Rightarrow> Inr []
      | Unreadable \<Rightarrow> Inr []
      | NotJson \<Rightarrow> Inr []
      | NonList \<Rightarrow> Inr []
      | JsonList es \<Rightarrow>
          (case get_keys es of
             Inl err \<Rightarrow> Inl err
           | Inr ks \<Rightarrow>
               (case py_sorted_reverse ks of
                  Inl err \<Rightarrow> Inl err
                | Inr b \<Rightarrow> Inr (take TOP_N b))))"

text \<open>\<open>save_leaderboard\<close>, lines 50 and 51; the write itself is taken to succeed.\<close>

definition save_leaderboard :: "jdict list \<Rightarrow> file_state" where
  "save_leaderboard board = JsonList (map JDict board)"

text \<open>\<open>is_top_score\<close>, lines 54 to 58.\<close>

definition is_top_score :: "file_state \<Rightarrow> int \<Rightarrow> py_error + bool" where
  "is_top_score f score =
     (case load_leaderboard f of
        Inl err \<Rightarrow> Inl err
      | Inr board \<Rightarrow>
          if length board < TOP_N then Inr (score > 0)
          else (case as_int (dict_get (last board) ''score'' (JInt 0)) of
                  None \<Rightarrow> Inl TypeError
                | Some m \<Rightarrow> Inr (score > m)))"

text \<open>The keys \<open>e["score"]\<close> of \<open>add_score\<close>: a dict without the key raises \<open>KeyError\<close>.\<close>

fun item_keys :: "jdict list \<Rightarrow> py_error + (jval \<times> jdict) list" where
  "item_keys [] = Inr []"
| "item_keys (d # ds) =
     (case dict_item d ''score'' of
        Inl err \<Rightarrow> Inl err
      | Inr k \<Rightarrow>
          (case item_keys ds of
             Inl err \<Rightarrow> Inl err
           | Inr ks \<Rightarrow> Inr ((k, d) # ks)))"

definition new_entry :: "string \<Rightarrow> jval \<Rightarrow> jdict" where
  "new_entry name score = [(''name'', JStr name), (''score'', score)]"

text \<open>\<open>add_score\<close>, lines 61 to 66; it returns the new board together with the file it has written.\<close>

definition add_score :: "string \<Rightarrow> jval \<Rightarrow> file_state \<Rightarrow> py_error + (jdict list \<times> file_state)" where
  "add_score name score f =
     (case load_leaderboard f of
        Inl err \<Rightarrow> Inl err
      | Inr board \<Rightarrow>
          (case item_keys (board @ [new_entry name score]) of
             Inl err \<Rightarrow> Inl err
           | Inr ks \<Rightarrow>
               (case py_sorted_reverse ks of
                  Inl err \<Rightarrow> Inl err
                | Inr b \<Rightarrow> Inr (take TOP_N b, save_leaderboard (take TOP_N b)))))"

subsection \<open>The \<open>submit_name\<close> branch of \<open>websocket_handler\<close>\<close>

text \<open>
  \<open>str.strip()\<close> removes leading and trailing whitespace; the whitespace characters of the
  ASCII range are the codes 9 to 13 and 28 to 32.
\<close>

definition is_space :: "char \<Rightarrow> bool" where
  "is_space c = (let n = (of_char c :: nat) in (9 \<le> n \<and> n \<le> 13) \<or> (28 \<le> n \<and> n \<le> 32))"

definition strip :: "string \<Rightarrow> string" where
  "strip s = rev (dropWhile is_space (rev (dropWhile is_space s)))"

text \<open>
  Lines 301 to 311. The message carries the name as a JSON string and any value as its score. The result is
  the board broadcast to the clients (\<open>None\<close> when the submission is dropped) and the file
  afterwards.
\<close>

definition submit_name ::
  "string \<Rightarrow> jval \<Rightarrow> file_state \<Rightarrow> py_error + (jdict list option \<times> file_state)" where
  "submit_name raw score f =
     (let name = take 20 (strip raw) in
      if name \<noteq> [] \<and> (case as_int score of None \<Rightarrow> False | Some i \<Rightarrow> i > 0)
      then (case add_score name score f of
              Inl err \<Rightarrow> Inl err
            | Inr (board, f') \<Rightarrow> Inr (Some board, f'))
      else Inr (None, f))"

text \<open>The board of the spec's scenario B.\<close>

definition board_B :: "jdict list" where
  "board_B = [new_entry ''A'' (JInt 10), new_entry ''B'' (JInt 8), new_entry ''C'' (JInt 6),
              new_entry ''D'' (JInt 4), new_entry ''E'' (JInt 2)]"

text \<open>The key \<open>e.get("score", 0)\<close> of an entry, and boards whose entries all carry an integer score.\<close>

definition score_of :: "jdict \<Rightarrow> jval" where
  "score_of d = dict_get d ''score'' (JInt 0)"

definition well_formed :: "jdict list \<Rightarrow> bool" where
  "well_formed b =
     list_all (\<lambda>d. case map_of d ''score'' of None \<Rightarrow> False | Some v \<Rightarrow> as_int v \<noteq> None) b"

definition int_scored :: "jdict list \<Rightarrow> bool" where
  "int_scored b = (\<forall>d\<in>set b. as_int (score_of d) \<noteq> None)"

definition descending :: "jdict list \<Rightarrow> bool" where
  "descending b = sorted (rev (map (\<lambda>d. int_key (score_of d)) b))"

section \<open>The game thread\<close>

subsection \<open>State\<close>

datatype phase = Idle | Playing | Input | GameOver

text \<open>The text of an \<open>error\<close> event: the fixed message of a failed start, or \<open>f"Error: {e}"\<close>.\<close>

datatype error_text = NoStarryPad | ErrorOf py_error

text \<open>The dicts put on \<open>game_events\<close>, one constructor for each value of \<open>"type"\<close>.\<close>

datatype event =
    EvPhase phase
  | EvScore int
  | EvLight int
  | EvUnlight int
  | EvCorrect int
  | EvWrong int
  | EvGameover int bool
  | EvLeaderboard "jdict list"
  | EvError error_text

record midi_msg =
  msg_type :: string
  msg_note :: int
  msg_velocity :: int

text \<open>
  What \<open>try_connect_midi\<close> meets: no input port whose name contains "starry"; an input port
  that fails to open; an input port that opens and an output port that fails to open; an
  input port alone; both ports.
\<close>

datatype device = NoInput | OpenInputFails | OpenOutputFails | InputOnly | InputOutput

text \<open>
  \<open>game_thread\<close> runs \<open>start_round\<close> from two places: the handling of a \<open>start\<close> command
  and the message loop, after the last pad of a round was repeated.
\<close>

datatype caller = FromStart | FromLoop

text \<open>
  Where the thread stands between two of its steps: at the top of \<open>while True\<close>; inside
  \<open>start_round\<close> before one of the calls of \<open>drain_commands\<close>, with the notes still to be
  lit; inside \<open>for msg in inport.iter_pending()\<close>; or ended by an exception.
\<close>

datatype control = AtLoop | AtPlayback caller "int list" | AtMessages | Halted

text \<open>
  The local variables of \<open>game_thread\<close>, followed by what the thread shares with its
  surroundings: the two queues, the messages the open input port holds pending, the
  leaderboard file and the MIDI ports on offer. \<open>inport\<close> and \<open>outport\<close> say whether the
  variable holds a port.
\<close>

record game =
  sequence :: "int list"
  score :: int
  phase :: phase
  expected_index :: nat
  last_note :: "int option"
  last_note_time :: real
  stop_requested :: bool
  midi_ok :: bool
  inport :: bool
  outport :: bool
  game_events :: "event list"
  ui_to_game :: "string list"
  pending :: "midi_msg list"
  leaderboard_file :: file_state
  device :: device
  pc :: control

text \<open>A call that returns, or raises with the state it has reached.\<close>

datatype outcome = Returns game | Raises py_error game

definition initial :: "device \<Rightarrow> file_state \<Rightarrow> game" where
  "initial dev file =
     \<lparr>sequence = [], score = 0, phase = Idle, expected_index = 0, last_note = None,
      last_note_time = 0, stop_requested = False, midi_ok = False, inport = False,
      outport = False, game_events = [], ui_to_game = [], pending = [],
      leaderboard_file = file, device = dev, pc = AtLoop\<rparr>"

subsection \<open>Helpers\<close>

text \<open>\<open>note_to_pad_index\<close>, lines 71 to 74.\<close>

definition note_to_pad_index :: "int \<Rightarrow> int option" where
  "note_to_pad_index note =
     (if NOTE_MIN \<le> note \<and> note \<le> NOTE_MAX then Some (note - NOTE_MIN) else None)"

text \<open>\<open>random.choice(PLAYABLE_NOTES)\<close>, the random draw being the argument.\<close>

definition choice :: "nat \<Rightarrow> int" where
  "choice pick = PLAYABLE_NOTES ! (pick mod length PLAYABLE_NOTES)"

definition emit :: "event \<Rightarrow> game \<Rightarrow> game" where
  "emit ev g = g\<lparr>game_events := game_events g @ [ev]\<rparr>"

text \<open>\<open>drain_commands\<close>, lines 104 to 111, empties the queue and returns the last command taken from it.\<close>

fun drain_loop :: "string option \<Rightarrow> string list \<Rightarrow> string option" where
  "drain_loop cmd [] = cmd"
| "drain_loop cmd (c # q) = drain_loop (Some c) q"

definition drain_commands :: "game \<Rightarrow> string option \<times> game" where
  "drain_commands g = (drain_loop None (ui_to_game g), g\<lparr>ui_to_game := []\<rparr>)"

text \<open>\<open>try_connect_midi\<close>, lines 113 to 128. A port that has just been opened holds no pending message.\<close>

definition try_connect_midi :: "game \<Rightarrow> game" where
  "try_connect_midi g =
     (if midi_ok g then g
      else case device g of
             NoInput \<Rightarrow> g
           | OpenInputFails \<Rightarrow> g
           | OpenOutputFails \<Rightarrow> g\<lparr>inport := True, pending := []\<rparr>
           | InputOnly \<Rightarrow> g\<lparr>inport := True, pending := [], outport := False, midi_ok := True\<rparr>
           | InputOutput \<Rightarrow> g\<lparr>inport := True, pending := [], outport := True, midi_ok := True\<rparr>)"

text \<open>
  \<open>light_pad\<close>, lines 130 to 148: what is sent to \<open>outport\<close> changes nothing in the thread's state, and a
  failing send is swallowed, so only the two events remain.
\<close>

definition light_pad :: "int \<Rightarrow> game \<Rightarrow> game" where
  "light_pad note g =
     (case note_to_pad_index note of
        None \<Rightarrow> g
      | Some idx \<Rightarrow> emit (EvUnlight idx) (emit (EvLight idx) g))"

text \<open>
  \<open>go_idle\<close>, lines 150 to 158, and \<open>game_over\<close>, lines 183 to 189. Reading the
  leaderboard may raise, after the assignments and events that precede it.
\<close>

definition go_idle :: "game \<Rightarrow> outcome" where
  "go_idle g =
     (let g1 = g\<lparr>phase := Idle, sequence := [], score := 0, stop_requested := False\<rparr>;
          g2 = emit (EvScore 0) (emit (EvPhase Idle) g1)
      in case load_leaderboard (leaderboard_file g2) of
           Inl err \<Rightarrow> Raises err g2
         | Inr board \<Rightarrow> Returns (emit (EvLeaderboard board) g2))"

definition game_over :: "game \<Rightarrow> outcome" where
  "game_over g =
     (let final_score = score g;
          g1 = emit (EvPhase GameOver) (g\<lparr>phase := GameOver\<rparr>)
      in case is_top_score (leaderboard_file g1) final_score of
           Inl err \<Rightarrow> Raises err g1
         | Inr is_top \<Rightarrow> Returns (emit (EvGameover final_score is_top) g1))"

text \<open>
  \<open>except Exception as e\<close> around the loop, lines 268 and 269: the error event is emitted and the thread ends.
\<close>

definition raised :: "py_error \<Rightarrow> game \<Rightarrow> game" where
  "raised err g = (emit (EvError (ErrorOf err)) g)\<lparr>pc := Halted\<rparr>"

text \<open>The thread goes on at \<open>c\<close> after a call that returned, and ends after one that raised.\<close>

definition resume :: "control \<Rightarrow> outcome \<Rightarrow> game" where
  "resume c r = (case r of Returns g \<Rightarrow> g\<lparr>pc := c\<rparr> | Raises err g \<Rightarrow> raised err g)"

subsection \<open>\<open>start_round\<close>\<close>

text \<open>The lines of \<open>start_round\<close> before its \<open>for\<close> loop, 162 to 167.\<close>

definition begin_round :: "caller \<Rightarrow> nat \<Rightarrow> game \<Rightarrow> game" where
  "begin_round c pick g =
     (let s = sequence g @ [choice pick];
          g1 = g\<lparr>sequence := s, score := int (length s) - 1, phase := Playing,
                 expected_index := 0\<rparr>;
          g2 = emit (EvPhase Playing) (emit (EvScore (score g1)) g1)
      in g2\<lparr>pc := AtPlayback c s\<rparr>)"

text \<open>
  Lines 168 to 181: one call of \<open>drain_commands\<close> inside \<open>start_round\<close> and what follows it up to the next
  one: with a note left, the body of the \<open>for\<close> loop; with none, the lines after the loop.
  When \<open>start_round\<close> has returned in phase \<open>input\<close>, the caller goes on into the message
  loop; after \<open>go_idle\<close> both callers go back to the top of \<open>while True\<close>.
\<close>

definition playback_step :: "caller \<Rightarrow> int list \<Rightarrow> game \<Rightarrow> game" where
  "playback_step c notes g0 =
     (let (cmd, g) = drain_commands g0 in
      case notes of
        note # rest \<Rightarrow>
          if cmd = Some ''stop'' then resume AtLoop (go_idle (g\<lparr>stop_requested := True\<rparr>))
          else (light_pad note g)\<lparr>pc := AtPlayback c rest\<rparr>
      | [] \<Rightarrow>
          if cmd = Some ''stop'' then resume AtLoop (go_idle g)
          else
            (let g1 = emit (EvPhase Input) (g\<lparr>phase := Input, expected_index := 0\<rparr>) in
             case c of
               FromStart \<Rightarrow> if inport g1 then g1\<lparr>pc := AtMessages\<rparr> else g1\<lparr>pc := AtLoop\<rparr>
             | FromLoop \<Rightarrow> g1\<lparr>pc := AtMessages\<rparr>))"

subsection \<open>The body of \<open>while True\<close>\<close>

text \<open>The two tests that precede the message loop, lines 217 to 223.\<close>

definition idle_or_poll :: "game \<Rightarrow> game" where
  "idle_or_poll g =
     (if phase g = Idle \<or> phase g = GameOver then g\<lparr>pc := AtLoop\<rparr>
      else if \<not> inport g then g\<lparr>pc := AtLoop\<rparr>
      else g\<lparr>pc := AtMessages\<rparr>)"

text \<open>
  Lines 197 to 215: from \<open>cmd = drain_commands()\<close> to the message loop or to the first line
  of \<open>start_round\<close>.
\<close>

definition loop_top :: "nat \<Rightarrow> game \<Rightarrow> game" where
  "loop_top pick g0 =
     (let (cmd, g) = drain_commands g0 in
      if cmd = Some ''stop'' \<and> phase g \<noteq> Idle then resume AtLoop (go_idle g)
      else if cmd = Some ''start'' \<and> (phase g = Idle \<or> phase g = GameOver) then
        (let g1 = (if \<not> midi_ok g then try_connect_midi g else g) in
         if \<not> midi_ok g1 then resume AtLoop (go_idle (emit (EvError NoStarryPad) g1))
         else begin_round FromStart pick (g1\<lparr>stop_requested := False, sequence := [], score := 0\<rparr>))
      else idle_or_poll g)"

text \<open>
  Lines 226 to 266: the body of \<open>for msg in inport.iter_pending()\<close> for one message; \<open>now\<close> is the value of
  \<open>time.time()\<close>. The blink sent to \<open>outport\<close> leaves the state as it is. Every \<open>continue\<close>
  leaves the thread inside the message loop.
\<close>

definition on_message :: "real \<Rightarrow> nat \<Rightarrow> midi_msg \<Rightarrow> game \<Rightarrow> game" where
  "on_message now pick msg g =
     (if msg_type msg \<noteq> ''note_on'' \<or> msg_velocity msg = 0 then g
      else
        (let note = msg_note msg in
         case note_to_pad_index note of
           None \<Rightarrow> g
         | Some idx \<Rightarrow>
             if phase g \<noteq> Input then g
             else if last_note g = Some note \<and> now - last_note_time g < DEBOUNCE_S then g
             else
               (let g1 = g\<lparr>last_note := Some note, last_note_time := now\<rparr> in
                if \<not> expected_index g1 < length (sequence g1) then raised IndexError g1
                else if note \<noteq> sequence g1 ! expected_index g1
                  then resume AtMessages (game_over (emit (EvWrong idx) g1))
                else
                  (let g2 = (emit (EvCorrect idx) g1)\<lparr>expected_index := expected_index g1 + 1\<rparr> in
                   if expected_index g2 \<ge> length (sequence g2)
                   then begin_round FromLoop pick g2
                   else g2))))"

text \<open>
  \<open>iter_pending\<close> polls the port each time the loop asks for a message: it hands over the
  oldest pending message, or ends the loop, after which the thread sleeps and starts the
  next cycle.
\<close>

definition poll_messages :: "real \<Rightarrow> nat \<Rightarrow> game \<Rightarrow> game" where
  "poll_messages now pick g =
     (case pending g of
        [] \<Rightarrow> g\<lparr>pc := AtLoop\<rparr>
      | msg # rest \<Rightarrow> on_message now pick msg (g\<lparr>pending := rest\<rparr>))"

definition engine_step :: "real \<Rightarrow> nat \<Rightarrow> game \<Rightarrow> game" where
  "engine_step now pick g =
     (case pc g of
        AtLoop \<Rightarrow> loop_top pick g
      | AtPlayback c notes \<Rightarrow> playback_step c notes g
      | AtMessages \<Rightarrow> poll_messages now pick g
      | Halted \<Rightarrow> g)"

text \<open>
  Lines 192 and 193, the first of \<open>game_thread\<close> outside its \<open>try\<close>: an exception there ends
  the thread.
\<close>

definition startup :: "device \<Rightarrow> file_state \<Rightarrow> game" where
  "startup dev file =
     (case go_idle (try_connect_midi (initial dev file)) of
        Returns g \<Rightarrow> g\<lparr>pc := AtLoop\<rparr>
      | Raises err g \<Rightarrow> g\<lparr>pc := Halted\<rparr>)"

subsection \<open>The thread and its surroundings\<close>

text \<open>
  Between two steps of the thread, the web server may put a command on \<open>ui_to_game\<close> or
  store a submitted score, the pad may send a MIDI message, and the ports on offer may
  change. An open input port queues every message it receives, whatever the thread is
  doing, until \<open>iter_pending\<close> hands it out. A step of the thread is given the clock
  reading and the random draw it may consult.
\<close>

datatype action =
    Command string
  | Midi midi_msg
  | Plug device
  | Submit string jval
  | Engine real nat

fun exec :: "action \<Rightarrow> game \<Rightarrow> game" where
  "exec (Command c) g = g\<lparr>ui_to_game := ui_to_game g @ [c]\<rparr>"
| "exec (Midi m) g = (if inport g then g\<lparr>pending := pending g @ [m]\<rparr> else g)"
| "exec (Plug d) g = g\<lparr>device := d\<rparr>"
| "exec (Submit raw sc) g =
     (case submit_name raw sc (leaderboard_file g) of
        Inl err \<Rightarrow> g
      | Inr (b, f) \<Rightarrow> g\<lparr>leaderboard_file := f\<rparr>)"
| "exec (Engine now pick) g = engine_step now pick g"

fun run :: "action list \<Rightarrow> game \<Rightarrow> game" where
  "run [] g = g"
| "run (a # as) g = run as (exec a g)"

inductive reachable :: "game \<Rightarrow> bool" where
  start: "reachable (startup dev file)"
| step: "reachable g \<Longrightarrow> reachable (exec a g)"

definition note_on :: "int \<Rightarrow> int \<Rightarrow> midi_msg" where
  "note_on n v = \<lparr>msg_type = ''note_on'', msg_note = n, msg_velocity = v\<rparr>"

subsection \<open>Invariant and sample states\<close>

text \<open>
  What holds of the thread's variables between any two of its steps: the score during a
  round, the phase and the sequence while a round is played back, and the cursor during input.
\<close>

definition inv :: "game \<Rightarrow> bool" where
  "inv g =
     ((phase g = Playing \<or> phase g = Input \<longrightarrow> score g = int (length (sequence g)) - 1) \<and>
      (\<forall>c ns. pc g = AtPlayback c ns \<longrightarrow> sequence g \<noteq> [] \<and> phase g = Playing) \<and>
      (phase g = Input \<longrightarrow> expected_index g < length (sequence g)))"

text \<open>The step is the thread's evaluation of a press that passes the debounce test.\<close>

fun evaluates_press :: "action \<Rightarrow> game \<Rightarrow> bool" where
  "evaluates_press (Engine now pick) g =
     (pc g = AtMessages \<and> phase g = Input \<and>
      (case pending g of
         [] \<Rightarrow> False
       | m # rest \<Rightarrow>
           msg_type m = ''note_on'' \<and> msg_velocity m \<noteq> 0 \<and>
           note_to_pad_index (msg_note m) \<noteq> None \<and>
           \<not> (last_note g = Some (msg_note m) \<and> now - last_note_time g < DEBOUNCE_S)))"
| "evaluates_press (Command c) g = False"
| "evaluates_press (Midi m) g = False"
| "evaluates_press (Plug d) g = False"
| "evaluates_press (Submit raw sc) g = False"

text \<open>
  Runs of a thread started with both ports present and no leaderboard file: the first round
  of a session being played back; the third round after its first pad was lit; the spec's
  scenario D with the press of pad 7 pending; and the input phase of the session started
  after that press has ended the game, with a new press of the same pad pending.
\<close>

definition first_playback :: game where
  "first_playback = run [Command ''start'', Engine 0 0] (startup InputOutput Missing)"

definition third_round :: game where
  "third_round = run [Command ''start'', Engine 0 0, Engine 0 0, Engine 0 0,
     Midi (note_on 31 100), Engine 1 1, Engine 0 0, Engine 0 0, Engine 0 0,
     Midi (note_on 31 90), Midi (note_on 32 90), Engine 5 0, Engine 6 2, Engine 0 0]
     (startup InputOutput Missing)"

definition scenario_D :: game where
  "scenario_D = run [Command ''start'', Engine 0 3, Engine 0 0, Engine 0 0,
     Midi (note_on 34 100), Engine 1 7, Engine 0 0, Engine 0 0, Engine 0 0,
     Midi (note_on 38 90)] (startup InputOutput Missing)"

definition next_session :: game where
  "next_session = run [Engine 5 0, Engine 0 0, Command ''start'', Engine 0 4, Engine 0 0,
     Engine 0 0, Midi (note_on 38 100)] scenario_D"

section \<open>Properties of the leaderboard\<close>

subsection \<open>Sorting\<close>

lemma insort_key_split:
  "sorted (map f ys) \<Longrightarrow>
   insort_key f x ys = filter (\<lambda>y. f y < f x) ys @ x # filter (\<lambda>y. f x \<le> f y) ys"
proof (induction ys)
  case Nil
  then show ?case by simp
next
  case (Cons y ys)
  show ?case
  proof (cases "f x \<le> f y")
    case True
    with Cons.prems have "\<forall>z\<in>set ys. f x \<le> f z" by auto
    then have "filter (\<lambda>y. f y < f x) ys = []" "filter (\<lambda>y. f x \<le> f y) ys = ys"
      by (auto simp: filter_empty_conv filter_id_conv)
    with True show ?thesis by simp
  next
    case False
    with Cons show ?thesis by simp
  qed
qed

lemma sorted_reverse_snoc:
  assumes "sorted (rev (map f xs))"
  shows "rev (sort_key f (rev (xs @ [x]))) =
         filter (\<lambda>y. f x \<le> f y) xs @ x # filter (\<lambda>y. f y < f x) xs"
proof -
  have s: "sorted (map f (rev xs))" using assms by (simp add: rev_map)
  have "sort_key f (rev (xs @ [x])) = insort_key f x (rev xs)"
    using s by (simp add: sort_key_id_if_sorted)
  also have "\<dots> = filter (\<lambda>y. f y < f x) (rev xs) @ x # filter (\<lambda>y. f x \<le> f y) (rev xs)"
    using s by (rule insort_key_split)
  finally show ?thesis by (simp add: rev_filter)
qed

lemma sorted_desc_filter_take:
  "sorted (rev (map f xs)) \<Longrightarrow>
   filter (\<lambda>y. s \<le> f y) xs = take (length (filter (\<lambda>y. s \<le> f y) xs)) xs \<and>
   filter (\<lambda>y. f y < s) xs = drop (length (filter (\<lambda>y. s \<le> f y) xs)) xs"
proof (induction xs)
  case Nil
  then show ?case by simp
next
  case (Cons y ys)
  from Cons.prems have le: "\<forall>z\<in>set ys. f z \<le> f y" and s: "sorted (rev (map f ys))"
    by (auto simp: sorted_append)
  show ?case
  proof (cases "s \<le> f y")
    case True
    with Cons.IH [OF s] show ?thesis by auto
  next
    case False
    with le have "\<forall>z\<in>set ys. f z < s" by auto
    then have "filter (\<lambda>y. s \<le> f y) ys = []" "filter (\<lambda>y. f y < s) ys = ys"
      by (auto simp: filter_empty_conv filter_id_conv)
    with False show ?thesis by simp
  qed
qed

lemma insort_key_decorated:
  "insort_key (\<lambda>kx. g (fst kx)) (h d, d) (map (\<lambda>d. (h d, d)) ds) =
   map (\<lambda>d. (h d, d)) (insort_key (\<lambda>d. g (h d)) d ds)"
  by (induction ds) simp_all

lemma sort_key_decorated:
  "sort_key (\<lambda>kx. g (fst kx)) (map (\<lambda>d. (h d, d)) ds) =
   map (\<lambda>d. (h d, d)) (sort_key (\<lambda>d. g (h d)) ds)"
  by (induction ds) (simp_all add: insort_key_decorated)

lemma py_sorted_reverse_decorated:
  "py_sorted_reverse (map (\<lambda>d. (h d, d)) ds) =
     (if length ds \<le> 1 then Inr ds
      else if \<forall>d\<in>set ds. as_int (h d) \<noteq> None
        then Inr (rev (sort_key (\<lambda>d. int_key (h d)) (rev ds)))
      else if \<forall>d\<in>set ds. as_str (h d) \<noteq> None
        then Inr (rev (sort_key (\<lambda>d. str_key (h d)) (rev ds)))
      else Inl TypeError)"
proof -
  have m: "map snd (map (\<lambda>d. (h d, d)) xs) = xs" for xs :: "'a list"
    by (simp add: comp_def)
  have i: "map snd (rev (sort_key (\<lambda>kx. g (fst kx)) (rev (map (\<lambda>d. (h d, d)) ds)))) =
           rev (sort_key (\<lambda>d. g (h d)) (rev ds))" for g :: "jval \<Rightarrow> 'b::linorder"
  proof -
    have "sort_key (\<lambda>kx. g (fst kx)) (rev (map (\<lambda>d. (h d, d)) ds)) =
          map (\<lambda>d. (h d, d)) (sort_key (\<lambda>d. g (h d)) (rev ds))"
      by (simp only: rev_map sort_key_decorated)
    then show ?thesis
      by (simp only: rev_map m)
  qed
  have c: "(\<forall>kx\<in>set (map (\<lambda>d. (h d, d)) ds). P (fst kx)) = (\<forall>d\<in>set ds. P (h d))" for P
    by simp
  show ?thesis
    unfolding py_sorted_reverse_def list_all_iff i m length_map
      c [of "\<lambda>k. as_int k \<noteq> None"] c [of "\<lambda>k. as_str k \<noteq> None"] ..
qed

lemma get_keys_Inr:
  "get_keys es = Inr ks \<Longrightarrow>
   \<exists>ds. es = map JDict ds \<and> ks = map (\<lambda>d. (score_of d, d)) ds"
proof (induction es arbitrary: ks)
  case Nil
  then show ?case by simp
next
  case (Cons e es)
  then obtain d where e: "e = JDict d" by (cases e) auto
  from Cons.prems e obtain ks' where k: "get_keys es = Inr ks'"
    and ks: "ks = (score_of d, d) # ks'"
    by (auto simp: score_of_def split: sum.splits)
  from Cons.IH [OF k] obtain ds where "es = map JDict ds" "ks' = map (\<lambda>d. (score_of d, d)) ds"
    by blast
  with e ks have "e # es = map JDict (d # ds) \<and> ks = map (\<lambda>d. (score_of d, d)) (d # ds)"
    by simp
  then show ?case by (rule exI [of _ "d # ds"])
qed

lemma item_keys_scored:
  "\<forall>d\<in>set ds. map_of d ''score'' \<noteq> None \<Longrightarrow>
   item_keys ds = Inr (map (\<lambda>d. (score_of d, d)) ds)"
  by (induction ds) (auto simp: score_of_def dict_item_def dict_get_def)

lemma descending_sort: "descending (rev (sort_key (\<lambda>d. int_key (score_of d)) ds))"
  by (simp add: descending_def rev_map sorted_sort_key)

lemma descending_take: "descending b \<Longrightarrow> descending (take n b)"
proof -
  assume "descending b"
  then have "sorted (rev (map (\<lambda>d. int_key (score_of d)) (take n b @ drop n b)))"
    by (simp add: descending_def)
  then show ?thesis
    unfolding descending_def map_append rev_append by (simp add: sorted_append)
qed

lemma load_leaderboard_length: "load_leaderboard f = Inr b \<Longrightarrow> length b \<le> TOP_N"
  by (auto simp: load_leaderboard_def split: file_state.splits sum.splits)

lemma load_leaderboard_descending:
  assumes "load_leaderboard f = Inr b" and "d \<in> set b" and "as_int (score_of d) \<noteq> None"
  shows "int_scored b \<and> descending b"
proof (cases f)
  case (JsonList es)
  with assms(1) obtain ks srt where k: "get_keys es = Inr ks"
    and s: "py_sorted_reverse ks = Inr srt" and b: "b = take TOP_N srt"
    by (auto simp: load_leaderboard_def split: sum.splits)
  from get_keys_Inr [OF k] obtain ds where ks: "ks = map (\<lambda>d. (score_of d, d)) ds" by blast
  show ?thesis
  proof (cases "length ds \<le> 1")
    case True
    with s ks have "srt = ds" by (simp add: py_sorted_reverse_decorated del: One_nat_def)
    with b True have "length b \<le> 1" by simp
    with assms(2) have "b = [d]" by (cases b) auto
    with assms(3) show ?thesis by (simp add: int_scored_def descending_def)
  next
    case False
    from assms(2) b have "d \<in> set srt" by (auto dest: in_set_takeD)
    show ?thesis
    proof (cases "\<forall>d\<in>set ds. as_int (score_of d) \<noteq> None")
      case True
      with s ks False have srt: "srt = rev (sort_key (\<lambda>d. int_key (score_of d)) (rev ds))"
        by (simp add: py_sorted_reverse_decorated del: One_nat_def)
      with True b have "int_scored b" by (auto simp: int_scored_def dest: in_set_takeD)
      with srt b show ?thesis by (simp add: descending_sort descending_take)
    next
      case nint: False
      with s ks False have str: "\<forall>d\<in>set ds. as_str (score_of d) \<noteq> None"
        and srt: "srt = rev (sort_key (\<lambda>d. str_key (score_of d)) (rev ds))"
        by (auto simp: py_sorted_reverse_decorated simp del: One_nat_def split: if_splits)
      from \<open>d \<in> set srt\<close> srt have "d \<in> set ds" by simp
      with str have "as_str (score_of d) \<noteq> None" by blast
      with assms(3) show ?thesis by (cases "score_of d") auto
    qed
  qed
qed (use assms in \<open>auto simp: load_leaderboard_def\<close>)

lemma well_formed_scored:
  "well_formed b \<Longrightarrow> d \<in> set b \<Longrightarrow> map_of d ''score'' \<noteq> None \<and> as_int (score_of d) \<noteq> None"
  by (auto simp: well_formed_def list_all_iff score_of_def dict_get_def split: option.splits)

lemma descending_nth:
  "descending b \<Longrightarrow> i \<le> j \<Longrightarrow> j < length b \<Longrightarrow>
   int_key (score_of (b ! j)) \<le> int_key (score_of (b ! i))"
  unfolding descending_def sorted_rev_iff_nth_mono by force

lemmas board_defs =
  add_score_def load_leaderboard_def save_leaderboard_def board_B_def new_entry_def
  dict_get_def dict_item_def py_sorted_reverse_def int_key_def TOP_N_def Let_def

lemma load_board_B: "load_leaderboard (save_leaderboard board_B) = Inr board_B"
  by (simp add: board_defs)

lemma well_formed_board_B: "well_formed board_B"
  by (simp add: well_formed_def board_B_def new_entry_def)

subsection \<open>Claims about the leaderboard\<close>

text \<open>
  C1, as stated, fails. With the full board of scenario B (scores 10, 8, 6, 4, 2) the lowest
  score is 2, not 4: the submission \<open>("Zed", 3)\<close> is stored in fifth place, the entry with
  score 2 is dropped, and the file written differs from the one read.
\<close>

theorem scenario_B_board_changes:
  "submit_name ''Zed'' (JInt 3) (save_leaderboard board_B) =
    Inr (Some [new_entry ''A'' (JInt 10), new_entry ''B'' (JInt 8), new_entry ''C'' (JInt 6),
              new_entry ''D'' (JInt 4), new_entry ''Zed'' (JInt 3)],
         save_leaderboard [new_entry ''A'' (JInt 10), new_entry ''B'' (JInt 8), new_entry ''C'' (JInt 6),
              new_entry ''D'' (JInt 4), new_entry ''Zed'' (JInt 3)])
   \<and> save_leaderboard [new_entry ''A'' (JInt 10), new_entry ''B'' (JInt 8), new_entry ''C'' (JInt 6),
              new_entry ''D'' (JInt 4), new_entry ''Zed'' (JInt 3)] \<noteq> save_leaderboard board_B"
  by (simp add: submit_name_def strip_def is_space_def add_score_def load_leaderboard_def
      save_leaderboard_def board_B_def new_entry_def dict_get_def dict_item_def
      py_sorted_reverse_def int_key_def TOP_N_def Let_def)

text \<open>
  C1, amended. With the full board of scenario B, a submission whose name is not empty after
  stripping and whose score is 3 takes fifth place and replaces the entry with score 2 in the
  persisted leaderboard; a positive score of at most 2, the current minimum, is kept out of
  the top list and the board written back is the one that was read.
\<close>

theorem submit_scenario_B:
  assumes "take 20 (strip raw) \<noteq> []"
  shows "submit_name raw (JInt 3) (save_leaderboard board_B) =
           Inr (Some [new_entry ''A'' (JInt 10), new_entry ''B'' (JInt 8),
                      new_entry ''C'' (JInt 6), new_entry ''D'' (JInt 4),
                      new_entry (take 20 (strip raw)) (JInt 3)],
                save_leaderboard [new_entry ''A'' (JInt 10), new_entry ''B'' (JInt 8),
                      new_entry ''C'' (JInt 6), new_entry ''D'' (JInt 4),
                      new_entry (take 20 (strip raw)) (JInt 3)]) \<and>
         (0 < s \<and> s \<le> 2 \<longrightarrow>
            submit_name raw (JInt s) (save_leaderboard board_B) =
              Inr (Some board_B, save_leaderboard board_B))"
  using assms by (simp add: submit_name_def board_defs)

text \<open>Witness for C1: the name \<open>" Ann  "\<close> with the scores 3 and 2.\<close>

theorem submit_scenario_B_witness:
  "take 20 (strip '' Ann  '') \<noteq> [] \<and>
   submit_name '' Ann  '' (JInt 3) (save_leaderboard board_B) =
     Inr (Some [new_entry ''A'' (JInt 10), new_entry ''B'' (JInt 8),
                new_entry ''C'' (JInt 6), new_entry ''D'' (JInt 4),
                new_entry ''Ann'' (JInt 3)],
          save_leaderboard [new_entry ''A'' (JInt 10), new_entry ''B'' (JInt 8),
                new_entry ''C'' (JInt 6), new_entry ''D'' (JInt 4),
                new_entry ''Ann'' (JInt 3)]) \<and>
   submit_name '' Ann  '' (JInt 2) (save_leaderboard board_B) =
     Inr (Some board_B, save_leaderboard board_B)"
proof -
  have s: "strip '' Ann  '' = ''Ann''" by (simp add: strip_def is_space_def)
  then have n: "take 20 (strip '' Ann  '') \<noteq> []" by simp
  from submit_scenario_B [OF n, of 2] s show ?thesis by simp
qed

text \<open>
  C3 fails on a file that holds a JSON list with an element that is not an object, such as
  \<open>[1]\<close>: computing the sort key calls \<open>get\<close> on that element, and the
  \<open>AttributeError\<close> is not among the exceptions \<open>load_leaderboard\<close> catches.
\<close>

theorem load_leaderboard_non_dict_raises:
  "load_leaderboard (JsonList [JNonDict]) = Inl AttributeError"
  by (simp add: load_leaderboard_def)

text \<open>
  C6. For every integer score \<open>s\<close> and every leaderboard that \<open>load_leaderboard\<close> returns,
  the score of its fifth entry, when there is one, being an integer: \<open>is_top_score\<close>
  returns true exactly when the board has fewer than 5 entries and \<open>s > 0\<close>, or the board
  has 5 entries and \<open>s\<close> is greater than the score of the fifth entry, which is the lowest
  score on the board. An entry without a score counts as 0, as \<open>get("score", 0)\<close> has it.
\<close>

theorem is_top_score_iff:
  assumes "load_leaderboard f = Inr board"
    and "length board = 5 \<longrightarrow> as_int (score_of (board ! 4)) \<noteq> None"
  shows "is_top_score f s =
           Inr ((length board < 5 \<and> s > 0) \<or>
                (length board = 5 \<and> s > int_key (score_of (board ! 4)))) \<and>
         (length board = 5 \<longrightarrow>
            (\<forall>d\<in>set board. int_key (score_of (board ! 4)) \<le> int_key (score_of d)))"
proof -
  have len: "length board \<le> 5"
    using load_leaderboard_length [OF assms(1)] by (simp add: TOP_N_def)
  have low: "int_key (score_of (board ! 4)) \<le> int_key (score_of d)"
    if full: "length board = 5" and d: "d \<in> set board" for d
  proof -
    from full assms(2) have "board ! 4 \<in> set board" "as_int (score_of (board ! 4)) \<noteq> None"
      by simp_all
    with assms(1) have desc: "descending board"
      using load_leaderboard_descending by blast
    from d obtain i where "i < length board" "board ! i = d" by (auto simp: in_set_conv_nth)
    with full descending_nth [OF desc, of i 4] show ?thesis by simp
  qed
  have top: "is_top_score f s = Inr (s > 0)" if "length board < 5"
    using that assms(1) by (simp add: is_top_score_def TOP_N_def)
  have full: "is_top_score f s = Inr (s > int_key (score_of (board ! 4)))" if l: "length board = 5"
  proof -
    from l have ne: "board \<noteq> []" by auto
    from l have last: "last board = board ! 4" by (simp add: last_conv_nth ne)
    from l assms(2) obtain m where m: "as_int (score_of (board ! 4)) = Some m" by auto
    with l last assms(1) show ?thesis
      by (simp add: is_top_score_def TOP_N_def score_of_def int_key_def)
  qed
  from len top full low show ?thesis by (cases "length board < 5") auto
qed

text \<open>Witness for C6: the board of scenario B, with the scores 3 and 2.\<close>

theorem is_top_score_iff_witness:
  "load_leaderboard (save_leaderboard board_B) = Inr board_B \<and>
   length board_B = 5 \<and> as_int (score_of (board_B ! 4)) = Some 2 \<and>
   is_top_score (save_leaderboard board_B) 3 = Inr True \<and>
   is_top_score (save_leaderboard board_B) 2 = Inr False"
proof -
  have l: "length board_B = 5" "as_int (score_of (board_B ! 4)) = Some 2"
    by (simp_all add: board_B_def new_entry_def score_of_def dict_get_def)
  then have h: "length board_B = 5 \<longrightarrow> as_int (score_of (board_B ! 4)) \<noteq> None"
    by simp
  from is_top_score_iff [OF load_board_B h, of 3] is_top_score_iff [OF load_board_B h, of 2]
    load_board_B l
  show ?thesis
    by (simp add: board_B_def new_entry_def score_of_def dict_get_def int_key_def)
qed

text \<open>
  C7. Let \<open>add_score\<close> insert a score \<open>s\<close> that an entry of the loaded board already has,
  and let \<open>k\<close> be the number of entries whose score is at least \<open>s\<close>. These are the first
  \<open>k\<close> entries of the board and they keep their positions; the new entry is placed
  right after them at index \<open>k\<close>, and when the board is full of such entries (\<open>k = 5\<close>) the
  board is written back as it was: no entry is displaced by a new entry of equal score.
\<close>

theorem add_score_tie_stable:
  assumes "load_leaderboard f = Inr old" and "well_formed old"
    and "\<exists>d\<in>set old. score_of d = JInt s"
  shows "\<exists>b k. add_score name (JInt s) f = Inr (b, save_leaderboard b) \<and>
           k = length (filter (\<lambda>d. s \<le> int_key (score_of d)) old) \<and>
           0 < k \<and> take k b = take k old \<and>
           (\<forall>i<length old. (i < k) = (s \<le> int_key (score_of (old ! i)))) \<and>
           (if k < 5 then b ! k = new_entry name (JInt s) else b = old)"
proof -
  define g where "g = (\<lambda>d. int_key (score_of d))"
  define new where "new = new_entry name (JInt s)"
  define k where "k = length (filter (\<lambda>d. s \<le> g d) old)"
  define L where "L = take k old @ new # drop k old"
  have len: "length old \<le> 5"
    using load_leaderboard_length [OF assms(1)] by (simp add: TOP_N_def)
  from assms(3) obtain d0 where "d0 \<in> set old" "as_int (score_of d0) \<noteq> None" by auto
  with assms(1) have "descending old"
    using load_leaderboard_descending by blast
  then have desc: "sorted (rev (map g old))"
    by (simp add: descending_def g_def)
  have gnew: "g new = s" and snew: "score_of new = JInt s" and mnew: "map_of new ''score'' \<noteq> None"
    by (simp_all add: g_def new_def new_entry_def score_of_def dict_get_def int_key_def)
  from assms(3) have ne: "old \<noteq> []" by auto
  have keys: "item_keys (old @ [new]) = Inr (map (\<lambda>d. (score_of d, d)) (old @ [new]))"
    using assms(2) mnew by (intro item_keys_scored) (auto dest: well_formed_scored)
  have ints: "\<forall>d\<in>set (old @ [new]). as_int (score_of d) \<noteq> None"
    using assms(2) snew by (auto dest: well_formed_scored)
  have "py_sorted_reverse (map (\<lambda>d. (score_of d, d)) (old @ [new])) =
        Inr (rev (sort_key g (rev (old @ [new]))))"
    unfolding py_sorted_reverse_decorated g_def using ne ints
    by (cases old) simp_all
  also have "rev (sort_key g (rev (old @ [new]))) =
             filter (\<lambda>y. g new \<le> g y) old @ new # filter (\<lambda>y. g y < g new) old"
    using desc by (rule sorted_reverse_snoc)
  also have "\<dots> = L"
    using sorted_desc_filter_take [OF desc, of s] by (simp add: gnew L_def k_def)
  finally have srt: "py_sorted_reverse (map (\<lambda>d. (score_of d, d)) (old @ [new])) = Inr L" .
  have add: "add_score name (JInt s) f = Inr (take 5 L, save_leaderboard (take 5 L))"
    using assms(1) keys srt by (simp add: add_score_def new_def TOP_N_def)
  have kle: "k \<le> length old" by (simp add: k_def)
  from assms(3) obtain d where "d \<in> set old" "s \<le> g d" by (auto simp: g_def int_key_def)
  then have "filter (\<lambda>d. s \<le> g d) old \<noteq> []" by (auto simp: filter_empty_conv)
  then have kpos: "0 < k" by (simp add: k_def)
  have tk: "take k (take 5 L) = take k old"
    using kle len by (simp add: L_def min_def)
  have split: "(i < k) = (s \<le> g (old ! i))" if i: "i < length old" for i
  proof (cases "i < k")
    case True
    then have "old ! i = take k old ! i" by simp
    also have "take k old = filter (\<lambda>d. s \<le> g d) old"
      using sorted_desc_filter_take [OF desc, of s] by (simp add: k_def)
    finally have "old ! i = filter (\<lambda>d. s \<le> g d) old ! i" .
    moreover from True have "i < length (filter (\<lambda>d. s \<le> g d) old)" by (simp add: k_def)
    ultimately have "old ! i \<in> set (filter (\<lambda>d. s \<le> g d) old)" by (metis nth_mem)
    with True show ?thesis by simp
  next
    case False
    with i have "old ! i = drop k old ! (i - k)" by simp
    also have "drop k old = filter (\<lambda>d. g d < s) old"
      using sorted_desc_filter_take [OF desc, of s] by (simp add: k_def)
    finally have "old ! i = filter (\<lambda>d. g d < s) old ! (i - k)" .
    moreover from False i have "i - k < length (drop k old)" by simp
    then have "i - k < length (filter (\<lambda>d. g d < s) old)"
      using sorted_desc_filter_take [OF desc, of s] by (simp add: k_def)
    ultimately have "old ! i \<in> set (filter (\<lambda>d. g d < s) old)" by (metis nth_mem)
    with False show ?thesis by simp
  qed
  have place: "if k < 5 then take 5 L ! k = new else take 5 L = old"
  proof (cases "k < 5")
    case True
    with kle show ?thesis by (simp add: L_def nth_append)
  next
    case False
    with kle len have "k = length old" "k = 5" by simp_all
    then show ?thesis by (simp add: L_def)
  qed
  from add kpos tk split place show ?thesis
    unfolding k_def g_def new_def by blast
qed

text \<open>Witness for C7: a second score of 2 submitted to the board of scenario B.\<close>

theorem add_score_tie_stable_witness:
  "load_leaderboard (save_leaderboard board_B) = Inr board_B \<and> well_formed board_B \<and>
   (\<exists>d\<in>set board_B. score_of d = JInt 2) \<and>
   add_score ''Zed'' (JInt 2) (save_leaderboard board_B) = Inr (board_B, save_leaderboard board_B)"
proof -
  have tie: "\<exists>d\<in>set board_B. score_of d = JInt 2"
    by (simp add: board_B_def new_entry_def score_of_def dict_get_def)
  have k: "length (filter (\<lambda>d. 2 \<le> int_key (score_of d)) board_B) = 5"
    by (simp add: board_B_def new_entry_def score_of_def dict_get_def int_key_def)
  from add_score_tie_stable [OF load_board_B well_formed_board_B tie, of "''Zed''"]
  obtain b where "add_score ''Zed'' (JInt 2) (save_leaderboard board_B) = Inr (b, save_leaderboard b)"
    and "if (5::nat) < 5 then b ! 5 = new_entry ''Zed'' (JInt 2) else b = board_B"
    unfolding k by blast
  then have "add_score ''Zed'' (JInt 2) (save_leaderboard board_B) =
    Inr (board_B, save_leaderboard board_B)" by simp
  with load_board_B well_formed_board_B tie show ?thesis by simp
qed

section \<open>Properties of the game thread\<close>

subsection \<open>The invariant\<close>

lemma drain_loop_last: "drain_loop c q = (if q = [] then c else Some (last q))"
  by (induction q arbitrary: c) simp_all

lemma resume_go_idle:
  "phase (resume c (go_idle g)) = Idle"
  "sequence (resume c (go_idle g)) = []"
  "score (resume c (go_idle g)) = 0"
  "pc (resume c (go_idle g)) = c \<or> pc (resume c (go_idle g)) = Halted"
  "last_note (resume c (go_idle g)) = last_note g"
  "last_note_time (resume c (go_idle g)) = last_note_time g"
  by (simp_all add: resume_def go_idle_def raised_def emit_def Let_def split: sum.splits)

lemma resume_game_over:
  "phase (resume c (game_over g)) = GameOver"
  "sequence (resume c (game_over g)) = sequence g"
  "score (resume c (game_over g)) = score g"
  "pc (resume c (game_over g)) = c \<or> pc (resume c (game_over g)) = Halted"
  "last_note (resume c (game_over g)) = last_note g"
  "last_note_time (resume c (game_over g)) = last_note_time g"
  by (simp_all add: resume_def game_over_def raised_def emit_def Let_def split: sum.splits)

lemma begin_round_fields:
  "phase (begin_round c pick g) = Playing"
  "sequence (begin_round c pick g) = sequence g @ [choice pick]"
  "score (begin_round c pick g) = int (length (sequence g))"
  "pc (begin_round c pick g) = AtPlayback c (sequence g @ [choice pick])"
  "last_note (begin_round c pick g) = last_note g"
  "last_note_time (begin_round c pick g) = last_note_time g"
  by (simp_all add: begin_round_def emit_def Let_def)

lemma inv_resume_go_idle: "inv (resume AtLoop (go_idle g))"
  using resume_go_idle(4) [of AtLoop g] by (auto simp: inv_def resume_go_idle(1))

lemma inv_resume_game_over: "inv (resume AtMessages (game_over g))"
  using resume_game_over(4) [of AtMessages g] by (auto simp: inv_def resume_game_over(1))

lemma inv_begin_round: "inv (begin_round c pick g)"
  by (simp add: inv_def begin_round_fields)

lemma inv_raised: "inv g \<Longrightarrow> inv (raised err g)"
  by (simp add: inv_def raised_def emit_def)

lemma inv_playback_step:
  assumes "inv g" and "pc g = AtPlayback c ns"
  shows "inv (playback_step c ns g)"
proof -
  from assms have p: "phase g = Playing" "sequence g \<noteq> []"
    "score g = int (length (sequence g)) - 1"
    by (auto simp: inv_def)
  show ?thesis
  proof (cases ns)
    case Nil
    with p show ?thesis
      by (cases c)
        (simp_all add: playback_step_def drain_commands_def inv_resume_go_idle Let_def,
         simp_all add: inv_def emit_def)
  next
    case (Cons n rest)
    with p show ?thesis
      by (simp add: playback_step_def drain_commands_def inv_resume_go_idle Let_def,
          simp add: inv_def emit_def light_pad_def split: option.splits)
  qed
qed

lemma inv_loop_top: "inv g \<Longrightarrow> pc g = AtLoop \<Longrightarrow> inv (loop_top pick g)"
  by (simp add: loop_top_def drain_commands_def inv_resume_go_idle inv_begin_round Let_def
      idle_or_poll_def, simp add: inv_def)

lemma inv_correct:
  "inv g \<Longrightarrow> pc g = AtMessages \<Longrightarrow> phase g = Input \<Longrightarrow>
   Suc (expected_index g) < length (sequence g) \<Longrightarrow>
   inv (g\<lparr>last_note := a, last_note_time := t, game_events := evs,
          expected_index := Suc (expected_index g)\<rparr>)"
  by (simp add: inv_def)

lemma inv_debounce_state: "inv g \<Longrightarrow> inv (g\<lparr>last_note := a, last_note_time := t\<rparr>)"
  by (simp add: inv_def)

lemma inv_on_message:
  assumes "inv g" and "pc g = AtMessages"
  shows "inv (on_message now pick m g)"
proof (cases "phase g = Input")
  case False
  with assms show ?thesis by (simp add: on_message_def Let_def split: option.splits)
next
  case True
  have less: "Suc (expected_index g) < length (sequence g)"
    if "\<not> length (sequence g) \<le> Suc (expected_index g)"
    using that by simp
  from assms True show ?thesis
    unfolding on_message_def Let_def
    by (auto simp: inv_begin_round inv_raised inv_resume_game_over inv_correct less
        inv_debounce_state emit_def split: option.splits)
qed

lemma inv_poll: "inv g \<Longrightarrow> pc g = AtMessages \<Longrightarrow> inv (poll_messages now pick g)"
proof (cases "pending g")
  case Nil
  assume "inv g" "pc g = AtMessages"
  with Nil show ?thesis by (simp add: poll_messages_def inv_def)
next
  case (Cons m ms)
  assume a: "inv g" "pc g = AtMessages"
  then have "inv (g\<lparr>pending := ms\<rparr>)" "pc (g\<lparr>pending := ms\<rparr>) = AtMessages"
    by (simp_all add: inv_def)
  then have "inv (on_message now pick m (g\<lparr>pending := ms\<rparr>))" by (rule inv_on_message)
  with Cons show ?thesis by (simp add: poll_messages_def)
qed

lemma inv_exec: "inv g \<Longrightarrow> inv (exec a g)"
proof (cases a)
  case (Engine now pick)
  assume "inv g"
  then show ?thesis unfolding Engine
    by (cases "pc g") (simp_all add: engine_step_def inv_loop_top inv_playback_step inv_poll)
qed (auto simp: inv_def split: sum.splits)

lemma inv_startup: "inv (startup dev file)"
  by (simp add: startup_def go_idle_def Let_def emit_def inv_def split: sum.splits)

lemma reachable_inv: "reachable g \<Longrightarrow> inv g"
  by (induction rule: reachable.induct) (simp_all add: inv_startup inv_exec)

lemma reachable_run: "reachable g \<Longrightarrow> reachable (run as g)"
  by (induction as arbitrary: g) (simp_all add: reachable.step)

subsection \<open>The sample states\<close>

lemmas step_defs =
  engine_step_def loop_top_def playback_step_def poll_messages_def on_message_def
  idle_or_poll_def begin_round_def go_idle_def game_over_def resume_def raised_def emit_def
  light_pad_def drain_commands_def try_connect_midi_def Let_def

lemmas engine_defs =
  step_defs startup_def initial_def note_on_def
  choice_def PLAYABLE_NOTES_def NOTE_MIN_def NOTE_MAX_def note_to_pad_index_def DEBOUNCE_S_def
  load_leaderboard_def is_top_score_def TOP_N_def

lemma first_playback_eq:
  "first_playback =
     \<lparr>sequence = [31], score = 0, phase = Playing, expected_index = 0, last_note = None,
      last_note_time = 0, stop_requested = False, midi_ok = True, inport = True,
      outport = True,
      game_events = [EvPhase Idle, EvScore 0, EvLeaderboard [], EvScore 0, EvPhase Playing],
      ui_to_game = [], pending = [], leaderboard_file = Missing, device = InputOutput,
      pc = AtPlayback FromStart [31]\<rparr>"
  by (simp add: first_playback_def engine_defs)

lemma third_round_eq:
  "third_round =
     \<lparr>sequence = [31, 32, 33], score = 2, phase = Playing, expected_index = 0,
      last_note = Some 32, last_note_time = 6, stop_requested = False,
      midi_ok = True, inport = True, outport = True,
      game_events =
        [EvPhase Idle, EvScore 0, EvLeaderboard [], EvScore 0,
         EvPhase Playing, EvLight 0, EvUnlight 0, EvPhase Input, EvCorrect 0,
         EvScore 1, EvPhase Playing, EvLight 0, EvUnlight 0, EvLight 1,
         EvUnlight 1, EvPhase Input, EvCorrect 0, EvCorrect 1, EvScore 2,
         EvPhase Playing, EvLight 0, EvUnlight 0],
      ui_to_game = [], pending = [], leaderboard_file = Missing,
      device = InputOutput, pc = AtPlayback FromLoop [32, 33]\<rparr>"
  by (simp add: third_round_def engine_defs)

lemma scenario_D_eq:
  "scenario_D =
     \<lparr>sequence = [34, 38], score = 1, phase = Input, expected_index = 0,
      last_note = Some 34, last_note_time = 1, stop_requested = False,
      midi_ok = True, inport = True, outport = True,
      game_events =
        [EvPhase Idle, EvScore 0, EvLeaderboard [], EvScore 0,
         EvPhase Playing, EvLight 3, EvUnlight 3, EvPhase Input, EvCorrect 3,
         EvScore 1, EvPhase Playing, EvLight 3, EvUnlight 3, EvLight 7,
         EvUnlight 7, EvPhase Input],
      ui_to_game = [], pending = [note_on 38 90], leaderboard_file = Missing,
      device = InputOutput, pc = AtMessages\<rparr>"
  by (simp add: scenario_D_def engine_defs)

lemma next_session_eq:
  "next_session =
     \<lparr>sequence = [35], score = 0, phase = Input, expected_index = 0,
      last_note = Some 38, last_note_time = 5, stop_requested = False,
      midi_ok = True, inport = True, outport = True,
      game_events =
        [EvPhase Idle, EvScore 0, EvLeaderboard [], EvScore 0,
         EvPhase Playing, EvLight 3, EvUnlight 3, EvPhase Input, EvCorrect 3,
         EvScore 1, EvPhase Playing, EvLight 3, EvUnlight 3, EvLight 7,
         EvUnlight 7, EvPhase Input, EvWrong 7, EvPhase GameOver, EvGameover 1 True,
         EvScore 0, EvPhase Playing, EvLight 4, EvUnlight 4, EvPhase Input],
      ui_to_game = [], pending = [note_on 38 100], leaderboard_file = Missing,
      device = InputOutput, pc = AtMessages\<rparr>"
  by (simp add: next_session_def scenario_D_eq engine_defs)

lemma scenario_D_reachable: "reachable scenario_D"
  unfolding scenario_D_def by (intro reachable_run reachable.start)

subsection \<open>Single steps\<close>

lemma game_events_resume_game_over:
  "\<exists>evs. game_events (resume c (game_over g)) = game_events g @ EvPhase GameOver # evs"
  by (simp add: resume_def game_over_def raised_def emit_def Let_def split: sum.splits)

lemma game_events_resume_go_idle:
  "\<exists>evs. game_events (resume c (go_idle g)) = game_events g @ EvPhase Idle # EvScore 0 # evs \<and>
         (\<forall>p. EvLight p \<notin> set evs)"
  by (simp add: resume_def go_idle_def raised_def emit_def Let_def split: sum.splits)

lemma last_note_loop_top:
  "last_note (loop_top pick g) = last_note g \<and>
   last_note_time (loop_top pick g) = last_note_time g"
  by (simp add: loop_top_def drain_commands_def resume_go_idle begin_round_fields
      idle_or_poll_def try_connect_midi_def emit_def Let_def split: device.splits)

lemma last_note_playback_step:
  "last_note (playback_step c ns g) = last_note g \<and>
   last_note_time (playback_step c ns g) = last_note_time g"
  by (simp add: playback_step_def drain_commands_def resume_go_idle light_pad_def emit_def
      Let_def split: list.splits caller.splits option.splits)

lemma next_session_reachable: "reachable next_session"
  unfolding next_session_def scenario_D_def
  by (intro reachable_run reachable.start)

subsection \<open>Claims about the game thread\<close>

text \<open>
  C4. In every state the thread reaches between two of its steps, if the phase is
  \<open>playing\<close> or \<open>input\<close> then the score is the length of the sequence minus 1.
\<close>

theorem score_invariant:
  assumes "reachable g" and "phase g = Playing \<or> phase g = Input"
  shows "score g = int (length (sequence g)) - 1"
  using reachable_inv [OF assms(1)] assms(2) by (auto simp: inv_def)

text \<open>Witness for C4: the first round of a session while it is played back.\<close>

theorem score_invariant_witness:
  "reachable first_playback \<and> phase first_playback = Playing \<and>
   score first_playback = int (length (sequence first_playback)) - 1"
proof -
  have r: "reachable first_playback"
    unfolding first_playback_def by (intro reachable_run reachable.start)
  have p: "phase first_playback = Playing" by (simp add: first_playback_eq)
  from score_invariant [OF r] p r show ?thesis by simp
qed

text \<open>
  C5. Let the thread, in phase \<open>input\<close>, take a press of a mapped pad from the port, and
  let \<open>now\<close> be the clock reading at that moment. If the pad is the one of the last recorded
  press and less than \<open>DEBOUNCE_S\<close> (350 ms) have passed since its time stamp, the press is
  ignored entirely: apart from the message having left the port the state is unchanged, so
  no event is emitted, the cursor stays and no phase changes. In every other case, in
  particular whenever the pad differs from the last recorded one, whatever the elapsed time,
  the press is recorded as the last one and evaluated: \<open>correct\<close> or \<open>wrong\<close> is emitted.
\<close>

theorem debounce_rule:
  assumes "reachable g" and "pc g = AtMessages" and "phase g = Input"
    and "pending g = m # rest"
    and "msg_type m = ''note_on''" and "msg_velocity m \<noteq> 0"
    and "note_to_pad_index (msg_note m) = Some idx"
  shows "(last_note g = Some (msg_note m) \<and> now - last_note_time g < DEBOUNCE_S \<longrightarrow>
            exec (Engine now pick) g = g\<lparr>pending := rest\<rparr>) \<and>
         (\<not> (last_note g = Some (msg_note m) \<and> now - last_note_time g < DEBOUNCE_S) \<longrightarrow>
            last_note (exec (Engine now pick) g) = Some (msg_note m) \<and>
            last_note_time (exec (Engine now pick) g) = now \<and>
            (\<exists>evs. game_events (exec (Engine now pick) g) =
               game_events g @
               (if msg_note m = sequence g ! expected_index g then EvCorrect idx else EvWrong idx)
               # evs))"
proof -
  from reachable_inv [OF assms(1)] assms(3)
  have idx: "expected_index g < length (sequence g)" by (simp add: inv_def)
  have step: "exec (Engine now pick) g = on_message now pick m (g\<lparr>pending := rest\<rparr>)"
    using assms(2,4) by (simp add: engine_step_def poll_messages_def)
  have ignored: "on_message now pick m (g\<lparr>pending := rest\<rparr>) = g\<lparr>pending := rest\<rparr>"
    if "last_note g = Some (msg_note m)" "now - last_note_time g < DEBOUNCE_S"
    using that assms(3,5,6,7) by (simp add: on_message_def Let_def)
  have evaluated:
    "last_note (on_message now pick m (g\<lparr>pending := rest\<rparr>)) = Some (msg_note m) \<and>
     last_note_time (on_message now pick m (g\<lparr>pending := rest\<rparr>)) = now \<and>
     (\<exists>evs. game_events (on_message now pick m (g\<lparr>pending := rest\<rparr>)) =
        game_events g @
        (if msg_note m = sequence g ! expected_index g then EvCorrect idx else EvWrong idx) # evs)"
    if n: "\<not> (last_note g = Some (msg_note m) \<and> now - last_note_time g < DEBOUNCE_S)"
  proof (cases "msg_note m = sequence g ! expected_index g")
    case True
    with n idx assms(3,5,6,7) show ?thesis
      by (auto simp: on_message_def Let_def begin_round_def emit_def)
  next
    case False
    define g1 where "g1 = emit (EvWrong idx)
      (g\<lparr>pending := rest, last_note := Some (msg_note m), last_note_time := now\<rparr>)"
    from False n idx assms(3,5,6,7)
    have "on_message now pick m (g\<lparr>pending := rest\<rparr>) = resume AtMessages (game_over g1)"
      by (auto simp: on_message_def Let_def g1_def)
    moreover obtain evs where
      "game_events (resume AtMessages (game_over g1)) = game_events g1 @ EvPhase GameOver # evs"
      using game_events_resume_game_over by blast
    ultimately show ?thesis
      using False by (simp add: resume_game_over g1_def emit_def)
  qed
  from step ignored evaluated show ?thesis by simp
qed

text \<open>
  Witness for C5: the same pad 200 ms after the press that ended the previous game is
  ignored; a different pad 100 ms after the last recorded press is evaluated.
\<close>

theorem debounce_rule_witness:
  "reachable next_session \<and> pc next_session = AtMessages \<and> phase next_session = Input \<and>
   pending next_session = [note_on 38 100] \<and> last_note next_session = Some 38 \<and>
   (52 / 10 :: real) - last_note_time next_session < DEBOUNCE_S \<and>
   exec (Engine (52 / 10) 0) next_session = next_session\<lparr>pending := []\<rparr> \<and>
   reachable scenario_D \<and> pc scenario_D = AtMessages \<and> phase scenario_D = Input \<and>
   pending scenario_D = [note_on 38 90] \<and> last_note scenario_D = Some 34 \<and>
   (11 / 10 :: real) - last_note_time scenario_D < DEBOUNCE_S \<and>
   last_note (exec (Engine (11 / 10) 0) scenario_D) = Some 38 \<and>
   last_note_time (exec (Engine (11 / 10) 0) scenario_D) = 11 / 10 \<and>
   (\<exists>evs. game_events (exec (Engine (11 / 10) 0) scenario_D) =
      game_events scenario_D @ EvWrong 7 # evs)"
proof -
  have p: "msg_type (note_on n v) = ''note_on''" "msg_note (note_on n v) = n"
    "msg_velocity (note_on n v) = v" for n v
    by (simp_all add: note_on_def)
  have pad: "note_to_pad_index 38 = Some 7"
    by (simp add: note_to_pad_index_def NOTE_MIN_def NOTE_MAX_def)
  have f: "pc next_session = AtMessages" "phase next_session = Input"
    "pending next_session = note_on 38 100 # []" "msg_type (note_on 38 100) = ''note_on''"
    "msg_velocity (note_on 38 100) \<noteq> 0" "note_to_pad_index (msg_note (note_on 38 100)) = Some 7"
    by (simp_all add: next_session_eq p pad)
  have l: "last_note next_session = Some 38" "last_note_time next_session = 5"
    by (simp_all add: next_session_eq)
  have f': "pc scenario_D = AtMessages" "phase scenario_D = Input"
    "pending scenario_D = note_on 38 90 # []" "msg_type (note_on 38 90) = ''note_on''"
    "msg_velocity (note_on 38 90) \<noteq> 0" "note_to_pad_index (msg_note (note_on 38 90)) = Some 7"
    by (simp_all add: scenario_D_eq p pad)
  have l': "last_note scenario_D = Some 34" "last_note_time scenario_D = 1"
    "sequence scenario_D ! expected_index scenario_D = 34"
    by (simp_all add: scenario_D_eq)
  from debounce_rule [OF next_session_reachable f, of "52 / 10" 0]
    debounce_rule [OF scenario_D_reachable f', of "11 / 10" 0]
    next_session_reachable scenario_D_reachable f f' l l'
  show ?thesis by (simp add: DEBOUNCE_S_def p)
qed

text \<open>
  C8. Scenario D: the sequence is pad 3, pad 7 (notes 34 and 38), the phase is \<open>input\<close>,
  the cursor is 0 and the player presses pad 7, a press that is not debounced. The thread
  emits \<open>wrong\<close> for pad 7, enters phase \<open>gameover\<close> and reports the score 1, the length
  of the sequence minus 1, in the \<open>gameover\<close> event, together with what \<open>is_top_score\<close>
  returns for it.
\<close>

theorem wrong_press_ends_round:
  assumes "reachable g" and "pc g = AtMessages" and "phase g = Input"
    and "sequence g = [34, 38]" and "expected_index g = 0"
    and "pending g = note_on 38 v # rest" and "v \<noteq> 0"
    and "\<not> (last_note g = Some 38 \<and> now - last_note_time g < DEBOUNCE_S)"
    and "is_top_score (leaderboard_file g) 1 = Inr is_top"
  shows "note_to_pad_index 34 = Some 3 \<and> note_to_pad_index 38 = Some 7 \<and>
         phase (exec (Engine now pick) g) = GameOver \<and>
         score (exec (Engine now pick) g) = 1 \<and>
         sequence (exec (Engine now pick) g) = [34, 38] \<and>
         game_events (exec (Engine now pick) g) =
           game_events g @ [EvWrong 7, EvPhase GameOver, EvGameover 1 is_top]"
proof -
  from reachable_inv [OF assms(1)] assms(3,4)
  have sc: "score g = 1" by (simp add: inv_def)
  have pad: "note_to_pad_index 34 = Some 3" "note_to_pad_index 38 = Some 7"
    by (simp_all add: note_to_pad_index_def NOTE_MIN_def NOTE_MAX_def)
  have step: "exec (Engine now pick) g = on_message now pick (note_on 38 v) (g\<lparr>pending := rest\<rparr>)"
    using assms(2,6) by (simp add: engine_step_def poll_messages_def)
  have "on_message now pick (note_on 38 v) (g\<lparr>pending := rest\<rparr>) =
        (g\<lparr>pending := rest, last_note := Some 38, last_note_time := now, phase := GameOver,
           game_events := game_events g @ [EvWrong 7, EvPhase GameOver, EvGameover 1 is_top]\<rparr>)"
    using assms(2-9) pad sc
    by (auto simp: on_message_def note_on_def Let_def resume_def game_over_def emit_def)
  with step pad assms(4) sc show ?thesis by simp
qed

text \<open>Witness for C8: the run that leads to scenario D, with no leaderboard file.\<close>

theorem wrong_press_ends_round_witness:
  "reachable scenario_D \<and> pc scenario_D = AtMessages \<and> phase scenario_D = Input \<and>
   sequence scenario_D = [34, 38] \<and> expected_index scenario_D = 0 \<and>
   pending scenario_D = [note_on 38 90] \<and>
   is_top_score (leaderboard_file scenario_D) 1 = Inr True \<and>
   phase (exec (Engine 5 0) scenario_D) = GameOver \<and>
   game_events (exec (Engine 5 0) scenario_D) =
     game_events scenario_D @ [EvWrong 7, EvPhase GameOver, EvGameover 1 True]"
proof -
  have f: "pc scenario_D = AtMessages" "phase scenario_D = Input"
    "sequence scenario_D = [34, 38]" "expected_index scenario_D = 0"
    "pending scenario_D = note_on 38 90 # []" "(90::int) \<noteq> 0"
    "\<not> (last_note scenario_D = Some 38 \<and> 5 - last_note_time scenario_D < DEBOUNCE_S)"
    "is_top_score (leaderboard_file scenario_D) 1 = Inr True"
    by (simp_all add: scenario_D_eq is_top_score_def load_leaderboard_def TOP_N_def)
  from wrong_press_ends_round [OF scenario_D_reachable f, of 0] scenario_D_reachable f
  show ?thesis by simp
qed

text \<open>
  C9, as stated, fails. \<open>drain_commands\<close> returns only the last command of the queue: when
  \<open>stop\<close> and then \<open>start\<close> are pending at the checkpoint after the first of three pads,
  a stop command is pending, yet the thread lights the second pad and stays in phase
  \<open>playing\<close> with its sequence.
\<close>

theorem stop_then_start_keeps_playing:
  "ui_to_game (run [Command ''stop'', Command ''start''] third_round) = [''stop'', ''start''] \<and>
   phase (run [Command ''stop'', Command ''start''] third_round) = Playing \<and>
   pc (run [Command ''stop'', Command ''start''] third_round) = AtPlayback FromLoop [32, 33] \<and>
   phase (run [Command ''stop'', Command ''start'', Engine 0 0] third_round) = Playing \<and>
   sequence (run [Command ''stop'', Command ''start'', Engine 0 0] third_round) = [31, 32, 33] \<and>
   pc (run [Command ''stop'', Command ''start'', Engine 0 0] third_round) = AtPlayback FromLoop [33] \<and>
   game_events (run [Command ''stop'', Command ''start'', Engine 0 0] third_round) =
     game_events third_round @ [EvLight 1, EvUnlight 1]"
  by (simp add: third_round_eq engine_defs)

text \<open>
  C9, amended. If at a checkpoint of the playback the command queue is not empty and its
  most recent command is \<open>stop\<close>, the thread lights no further pad, goes to phase \<open>idle\<close>
  and clears the sequence.
\<close>

theorem stop_aborts_playback:
  assumes "pc g = AtPlayback c ns"
    and "ui_to_game g \<noteq> []" and "last (ui_to_game g) = ''stop''"
  shows "phase (exec (Engine now pick) g) = Idle \<and>
         sequence (exec (Engine now pick) g) = [] \<and>
         (pc (exec (Engine now pick) g) = AtLoop \<or> pc (exec (Engine now pick) g) = Halted) \<and>
         (\<exists>evs. game_events (exec (Engine now pick) g) =
                  game_events g @ EvPhase Idle # EvScore 0 # evs \<and>
                (\<forall>p. EvLight p \<notin> set evs))"
proof -
  have d: "drain_loop None (ui_to_game g) = Some ''stop''"
    using assms(2,3) by (simp add: drain_loop_last)
  obtain g' where step: "exec (Engine now pick) g = resume AtLoop (go_idle g')"
    and ev: "game_events g' = game_events g"
    using assms(1) d
    by (cases ns) (simp_all add: engine_step_def playback_step_def drain_commands_def)
  from game_events_resume_go_idle [of AtLoop g'] ev resume_go_idle(4) [of AtLoop g']
  show ?thesis unfolding step by (simp add: resume_go_idle)
qed

text \<open>Witness for C9: scenario E, a stop command after the first of three pads was lit.\<close>

theorem stop_aborts_playback_witness:
  "pc (exec (Command ''stop'') third_round) = AtPlayback FromLoop [32, 33] \<and>
   ui_to_game (exec (Command ''stop'') third_round) = [''stop''] \<and>
   phase (run [Command ''stop'', Engine 0 0] third_round) = Idle \<and>
   sequence (run [Command ''stop'', Engine 0 0] third_round) = [] \<and>
   (\<exists>evs. game_events (run [Command ''stop'', Engine 0 0] third_round) =
            game_events third_round @ EvPhase Idle # EvScore 0 # evs \<and>
          (\<forall>p. EvLight p \<notin> set evs))"
proof -
  have f: "pc (exec (Command ''stop'') third_round) = AtPlayback FromLoop [32, 33]"
    "ui_to_game (exec (Command ''stop'') third_round) \<noteq> []"
    "last (ui_to_game (exec (Command ''stop'') third_round)) = ''stop''"
    by (simp_all add: third_round_eq)
  have q: "ui_to_game (exec (Command ''stop'') third_round) = [''stop'']"
    "game_events (exec (Command ''stop'') third_round) = game_events third_round"
    by (simp_all add: third_round_eq)
  from stop_aborts_playback [OF f, of 0 0] f(1) q show ?thesis by simp
qed

text \<open>
  C10. No step of the thread or of its surroundings resets the debounce state: the pair
  \<open>(last_note, last_note_time)\<close> changes only when the thread evaluates a press that passes
  the debounce test, and then it becomes that press and its clock reading. Round starts,
  stop commands, game over and the start of a new session leave it as it is. So a press
  taken from the port is dropped, leaving nothing but its removal from the port, whenever
  its pad is the last recorded one and less than \<open>DEBOUNCE_S\<close> have passed on the clock
  since then, also when that recorded press belongs to an earlier phase or session.
\<close>

theorem debounce_state_never_reset:
  "(\<not> evaluates_press a g \<longrightarrow>
      last_note (exec a g) = last_note g \<and> last_note_time (exec a g) = last_note_time g) \<and>
   (evaluates_press (Engine now pick) g \<and> pending g = m # rest \<longrightarrow>
      last_note (exec (Engine now pick) g) = Some (msg_note m) \<and>
      last_note_time (exec (Engine now pick) g) = now) \<and>
   (pc g = AtMessages \<and> pending g = m # rest \<and>
    last_note g = Some (msg_note m) \<and> now - last_note_time g < DEBOUNCE_S \<longrightarrow>
      exec (Engine now pick) g = g\<lparr>pending := rest\<rparr>)"
proof -
  have kept: "last_note (exec a g) = last_note g \<and> last_note_time (exec a g) = last_note_time g"
    if n: "\<not> evaluates_press a g"
  proof (cases a)
    case (Engine t k)
    show ?thesis
    proof (cases "pc g")
      case AtMessages
      with n Engine show ?thesis
        by (auto simp: engine_step_def poll_messages_def on_message_def Let_def
            split: list.splits option.splits)
    qed (simp_all add: Engine engine_step_def last_note_loop_top last_note_playback_step)
  qed (simp_all split: sum.splits)
  have set: "last_note (exec (Engine now pick) g) = Some (msg_note m) \<and>
             last_note_time (exec (Engine now pick) g) = now"
    if "evaluates_press (Engine now pick) g" "pending g = m # rest"
    using that
    by (auto simp: engine_step_def poll_messages_def on_message_def Let_def raised_def emit_def
        resume_game_over begin_round_fields)
  have dropped: "exec (Engine now pick) g = g\<lparr>pending := rest\<rparr>"
    if "pc g = AtMessages" "pending g = m # rest"
      "last_note g = Some (msg_note m)" "now - last_note_time g < DEBOUNCE_S"
    using that
    by (simp add: engine_step_def poll_messages_def on_message_def Let_def split: option.splits)
  from kept set dropped show ?thesis by blast
qed

text \<open>
  Witness for C10: a playback step keeps the pair; the press that ends the game of scenario D
  sets it; in the input phase of the next session the first press, on the same pad with the
  clock 200 ms further, is dropped.
\<close>

theorem debounce_state_never_reset_witness:
  "\<not> evaluates_press (Engine 0 0) third_round \<and>
   last_note (exec (Engine 0 0) third_round) = Some 32 \<and>
   last_note_time (exec (Engine 0 0) third_round) = 6 \<and>
   evaluates_press (Engine 5 0) scenario_D \<and>
   last_note (exec (Engine 5 0) scenario_D) = Some 38 \<and>
   last_note_time (exec (Engine 5 0) scenario_D) = 5 \<and>
   phase next_session = Input \<and> expected_index next_session = 0 \<and>
   pc next_session = AtMessages \<and> pending next_session = [note_on 38 100] \<and>
   last_note next_session = Some 38 \<and> last_note_time next_session = 5 \<and>
   (52 / 10 :: real) - last_note_time next_session < DEBOUNCE_S \<and>
   exec (Engine (52 / 10) 0) next_session = next_session\<lparr>pending := []\<rparr>"
proof -
  have a: "\<not> evaluates_press (Engine 0 0) third_round"
    "last_note third_round = Some 32" "last_note_time third_round = 6"
    by (simp_all add: third_round_eq)
  have b: "evaluates_press (Engine 5 0) scenario_D" "pending scenario_D = note_on 38 90 # []"
    "msg_note (note_on 38 90) = 38"
    by (simp_all add: scenario_D_eq note_on_def note_to_pad_index_def NOTE_MIN_def NOTE_MAX_def
        DEBOUNCE_S_def)
  have c: "pc next_session = AtMessages" "pending next_session = note_on 38 100 # []"
    "last_note next_session = Some (msg_note (note_on 38 100))"
    "(52 / 10 :: real) - last_note_time next_session < DEBOUNCE_S"
    "phase next_session = Input" "expected_index next_session = 0"
    "last_note_time next_session = 5" "msg_note (note_on 38 100) = 38"
    by (simp_all add: next_session_eq note_on_def DEBOUNCE_S_def)
  from debounce_state_never_reset [of "Engine 0 0" third_round 0 0 "note_on 38 100" "[]"]
    debounce_state_never_reset [of "Engine 5 0" scenario_D 5 0 "note_on 38 90" "[]"]
    debounce_state_never_reset [of "Engine 0 0" next_session "52 / 10" 0 "note_on 38 100" "[]"]
    a b c
  show ?thesis by simp
qed

text \<open>
  C2 fails. The test \<open>phase != "input"\<close> is made when a message is taken from the port,
  not when it arrives, and \<open>start_round\<close> does not return before the playback is over. A
  press of pad 9 that arrives while the first round is played back stays pending in the
  port; once the phase is \<open>input\<close> the message loop takes it and evaluates it: \<open>wrong\<close> is
  emitted and the game is over.
\<close>

theorem press_during_playback_is_evaluated:
  "phase first_playback = Playing \<and>
   pc first_playback = AtPlayback FromStart [31] \<and>
   pending (exec (Midi (note_on 40 100)) first_playback) = [note_on 40 100] \<and>
   phase (run [Midi (note_on 40 100), Engine 0 0, Engine 0 0] first_playback) = Input \<and>
   pending (run [Midi (note_on 40 100), Engine 0 0, Engine 0 0] first_playback) =
     [note_on 40 100] \<and>
   phase (run [Midi (note_on 40 100), Engine 0 0, Engine 0 0, Engine 1 0] first_playback) =
     GameOver \<and>
   game_events (run [Midi (note_on 40 100), Engine 0 0, Engine 0 0, Engine 1 0] first_playback) =
     game_events (run [Midi (note_on 40 100), Engine 0 0, Engine 0 0] first_playback) @
     [EvWrong 9, EvPhase GameOver, EvGameover 0 False]"
  by (simp add: first_playback_eq engine_defs)

end
